theory Spec2Isabelle
  imports Main "HOL-Library.Word"
begin

unbundle bit_operations_syntax

section \<open>rastertericoh: CUPS raster to Ricoh PJL + JBIG1\<close>

text \<open>
  A shallow embedding of \<^verbatim>\<open>src/rastertericoh.c\<close>. Every C function of the file has a HOL
  function of the same name. Machine integers keep their width: \<^verbatim>\<open>unsigned int\<close> is a
  32-bit word, \<^verbatim>\<open>size_t\<close> a 64-bit word, \<^verbatim>\<open>unsigned char\<close> an 8-bit word. Standard
  output is the list of bytes written so far.
\<close>

type_synonym byte = "8 word"
type_synonym uint = "32 word"
type_synonym size_t = "64 word"

subsection \<open>libc: characters, strings, printf conversions, the allocator\<close>

definition bytes_of :: "string \<Rightarrow> byte list" where
  "bytes_of s = map of_char s"

text \<open>\<^verbatim>\<open>tolower\<close> in the C locale.\<close>

definition tolower :: "char \<Rightarrow> char" where
  "tolower c = (let n = (of_char c :: nat) in if 65 \<le> n \<and> n \<le> 90 then char_of (n + 32) else c)"

text \<open>
  \<^verbatim>\<open>strcasecmp\<close>: compares the two strings character by character after \<^verbatim>\<open>tolower\<close>;
  the result is negative, zero or positive (the model returns the sign).
\<close>

fun strcasecmp :: "string \<Rightarrow> string \<Rightarrow> int" where
  "strcasecmp [] [] = 0"
| "strcasecmp [] (b # bs) = - 1"
| "strcasecmp (a # as) [] = 1"
| "strcasecmp (a # as) (b # bs) =
     (if tolower a = tolower b then strcasecmp as bs
      else if (of_char (tolower a) :: nat) < of_char (tolower b) then - 1 else 1)"

text \<open>The conversions \<^verbatim>\<open>%u\<close> and \<^verbatim>\<open>%zu\<close> (decimal, no padding) and \<^verbatim>\<open>%d\<close>.\<close>

fun dec :: "nat \<Rightarrow> string" where
  "dec n = (if n < 10 then [''0123456789'' ! n]
            else dec (n div 10) @ [''0123456789'' ! (n mod 10)])"

declare dec.simps [simp del]

definition dec_int :: "int \<Rightarrow> string" where
  "dec_int i = (if i < 0 then CHR ''-'' # dec (nat (- i)) else dec (nat i))"

text \<open>
  The allocator. Whether \<^verbatim>\<open>malloc\<close>, \<^verbatim>\<open>calloc\<close> or \<^verbatim>\<open>realloc\<close> returns a block
  is decided outside the program; the model reads the outcome of each call, in call order,
  from a list (\<open>False\<close> is a \<^verbatim>\<open>NULL\<close> return). Once the list is used up every call
  succeeds.
\<close>

type_synonym heap = "bool list"

fun alloc :: "heap \<Rightarrow> bool \<times> heap" where
  "alloc [] = (True, [])"
| "alloc (ok # hp) = (ok, hp)"

subsection \<open>\<^verbatim>\<open>pjl_printf\<close> and \<^verbatim>\<open>write_bytes\<close>\<close>

text \<open>
  \<^verbatim>\<open>pjl_printf\<close> writes the formatted line, then CR and LF. Its argument here is the line
  after formatting.
\<close>

definition pjl_printf :: "string \<Rightarrow> byte list \<Rightarrow> byte list" where
  "pjl_printf s out = out @ bytes_of s @ [13, 10]"

text \<open>\<^verbatim>\<open>fwrite(data, 1, len, stdout)\<close>: the first \<open>len\<close> bytes of \<open>data\<close>.\<close>

definition write_bytes :: "byte list \<Rightarrow> size_t \<Rightarrow> byte list \<Rightarrow> byte list" where
  "write_bytes data len out = out @ take (unat len) data"

subsection \<open>\<^verbatim>\<open>cups_to_pjl_paper\<close>\<close>

text \<open>The argument is a C string pointer; \<open>None\<close> is \<^verbatim>\<open>NULL\<close>.\<close>

definition cups_to_pjl_paper :: "string option \<Rightarrow> string" where
  "cups_to_pjl_paper cups_size =
     (case cups_size of
        None \<Rightarrow> ''A4''
      | Some s \<Rightarrow>
          if strcasecmp s ''A4'' = 0 then ''A4''
          else if strcasecmp s ''Letter'' = 0 then ''LETTER''
          else if strcasecmp s ''Legal'' = 0 then ''LEGAL''
          else if strcasecmp s ''A5'' = 0 then ''A5''
          else if strcasecmp s ''A6'' = 0 then ''A6''
          else if strcasecmp s ''B5'' = 0 then ''B5''
          else if strcasecmp s ''B6'' = 0 then ''B6''
          else if strcasecmp s ''Monarch'' = 0 then ''MONARCH''
          else ''A4'')"




subsection \<open>The JBIG output buffer: \<^verbatim>\<open>jbig_buffer_t\<close> and \<^verbatim>\<open>jbig_data_cb\<close>\<close>

text \<open>
  \<open>data\<close> holds the bytes written so far (the block's first \<open>size\<close> bytes; the rest of the
  block is uninitialised), \<open>capacity\<close> the size of the block. The field \<^verbatim>\<open>size\<close> is \<open>size'\<close>
  here.
\<close>

record jbig_buffer_t =
  data :: "byte list"
  size' :: size_t
  capacity :: size_t

text \<open>Lines 121 to 123: the size passed to \<^verbatim>\<open>realloc\<close>.\<close>

definition new_cap :: "jbig_buffer_t \<Rightarrow> size_t \<Rightarrow> size_t" where
  "new_cap buf len =
     (let nc = capacity buf * 2
      in if nc < size' buf + len then size' buf + len + 65536 else nc)"

text \<open>
  The callback. \<open>start\<close> is the chunk, \<open>len\<close> its length. When \<^verbatim>\<open>realloc\<close> fails the
  callback logs and returns: the chunk is not stored and the buffer is as before.
\<close>

definition jbig_data_cb :: "byte list \<Rightarrow> jbig_buffer_t \<times> heap \<Rightarrow> jbig_buffer_t \<times> heap" where
  "jbig_data_cb start st =
     (let buf = fst st; hp = snd st; len = (of_nat (length start) :: size_t)
      in if size' buf + len > capacity buf then
           (let (ok, hp') = alloc hp
            in if \<not> ok then (buf, hp')
               else (buf\<lparr>data := data buf @ start, size' := size' buf + len,
                          capacity := new_cap buf len\<rparr>, hp'))
         else (buf\<lparr>data := data buf @ start, size' := size' buf + len\<rparr>, hp))"

subsection \<open>Undefined behaviour\<close>

text \<open>
  Where the C program would read or write outside a block, or overflow a signed integer, the
  model stops with a fault instead of a value.
\<close>

datatype fault = OutOfBoundsRead | OutOfBoundsWrite | SignedOverflow

text \<open>
  \<^verbatim>\<open>memcpy(mem + dst, src, n)\<close> and \<^verbatim>\<open>memset(mem + dst, 0, n)\<close> on a block \<open>mem\<close>;
  \<open>src\<close> is the whole source block.
\<close>

definition memcpy :: "byte list \<Rightarrow> nat \<Rightarrow> byte list \<Rightarrow> nat \<Rightarrow> fault + byte list" where
  "memcpy mem dst src n =
     (if length src < n then Inl OutOfBoundsRead
      else if length mem < dst + n then Inl OutOfBoundsWrite
      else Inr (take dst mem @ take n src @ drop (dst + n) mem))"

definition memset0 :: "byte list \<Rightarrow> nat \<Rightarrow> nat \<Rightarrow> fault + byte list" where
  "memset0 mem dst n =
     (if length mem < dst + n then Inl OutOfBoundsWrite
      else Inr (take dst mem @ replicate n 0 @ drop (dst + n) mem))"

subsection \<open>libcups: the page header and the raster stream\<close>

text \<open>The fields of \<^verbatim>\<open>cups_page_header2_t\<close> that the filter reads.\<close>

record cups_page_header2_t =
  MediaPosition :: uint
  HWResolution :: "uint \<times> uint"
  cupsWidth :: uint
  cupsHeight :: uint
  cupsBitsPerPixel :: uint
  cupsBytesPerLine :: uint
  cupsColorSpace :: uint
  cupsPageSizeName :: string

text \<open>The two values of \<^verbatim>\<open>cups_cspace_t\<close> the filter names, as \<^verbatim>\<open>cups/raster.h\<close> numbers them.\<close>

definition CUPS_CSPACE_W :: uint where "CUPS_CSPACE_W = 0"
definition CUPS_CSPACE_SW :: uint where "CUPS_CSPACE_SW = 18"

text \<open>
  The raster stream is an in-memory stand-in for the library: the pages still to come, each
  with its header and with what the successive calls of \<^verbatim>\<open>cupsRasterReadPixels\<close> deliver on
  that page. A call delivers at most \<open>len\<close> bytes and returns how many; when nothing is left
  it delivers none.
\<close>

type_synonym raster_page = "cups_page_header2_t \<times> byte list list"

fun cupsRasterReadPixels :: "byte list list \<Rightarrow> nat \<Rightarrow> byte list \<times> byte list list" where
  "cupsRasterReadPixels [] len = ([], [])"
| "cupsRasterReadPixels (r # ras) len = (take len r, ras)"

subsection \<open>\<^verbatim>\<open>raster_to_pbm\<close>\<close>

text \<open>Lines 84 to 91: is the 8-bit pixel value black?\<close>

definition black :: "cups_page_header2_t \<Rightarrow> byte \<Rightarrow> bool" where
  "black header v =
     (if cupsColorSpace header = CUPS_CSPACE_W \<or> cupsColorSpace header = CUPS_CSPACE_SW
      then v < 128 else v \<ge> 128)"

text \<open>
  Lines 82 to 95, the loop over \<open>x\<close>, given as the list of the values \<open>x\<close> takes. \<open>dst\<close> is
  the offset of the row in the block \<open>pbm\<close>, \<open>line\<close> the line buffer.
\<close>

fun threshold_loop ::
  "cups_page_header2_t \<Rightarrow> byte list \<Rightarrow> nat \<Rightarrow> nat list \<Rightarrow> byte list \<Rightarrow> fault + byte list" where
  "threshold_loop header line dst [] pbm = Inr pbm"
| "threshold_loop header line dst (x # xs) pbm =
     (if length line \<le> x then Inl OutOfBoundsRead
      else if black header (line ! x) then
        (if length pbm \<le> dst + x div 8 then Inl OutOfBoundsWrite
         else threshold_loop header line dst xs
                (pbm[dst + x div 8 := pbm ! (dst + x div 8) OR drop_bit (x mod 8) 0x80]))
      else threshold_loop header line dst xs pbm)"

text \<open>The row stride of the packed bitmap, line 52, in \<^verbatim>\<open>unsigned int\<close> arithmetic.\<close>

definition pbm_stride :: "cups_page_header2_t \<Rightarrow> uint" where
  "pbm_stride header = (cupsWidth header + 7) div 8"

text \<open>
  Lines 70 to 100: row \<open>y\<close> of the bitmap from a line that was read in full. The offset
  \<open>y * pbm_stride\<close> is computed in \<^verbatim>\<open>size_t\<close>; both factors are below \<open>2 ^ 32\<close>, so the
  product does not wrap.
\<close>

definition store_row ::
  "cups_page_header2_t \<Rightarrow> byte list \<Rightarrow> nat \<Rightarrow> byte list \<Rightarrow> fault + byte list" where
  "store_row header line y pbm =
     (let bpl = cupsBytesPerLine header; stride = pbm_stride header;
          dst = y * unat stride
      in if cupsBitsPerPixel header = 1 then memcpy pbm dst line (unat stride)
         else if cupsBitsPerPixel header = 8 then
           (case memset0 pbm dst (unat stride) of
              Inl f \<Rightarrow> Inl f
            | Inr pbm0 \<Rightarrow> threshold_loop header line dst [0..<unat (cupsWidth header)] pbm0)
         else memcpy pbm dst line (unat (if stride < bpl then stride else bpl)))"

text \<open>
  Lines 64 to 101, the loop over \<open>y\<close>, given as the list of the values \<open>y\<close> takes. A read
  that returns anything but \<open>bpl\<close> leaves the loop.
\<close>

fun row_loop ::
  "cups_page_header2_t \<Rightarrow> nat list \<Rightarrow> byte list list \<Rightarrow> byte list \<Rightarrow> fault + byte list" where
  "row_loop header [] ras pbm = Inr pbm"
| "row_loop header (y # ys) ras pbm =
     (let (line, ras') = cupsRasterReadPixels ras (unat (cupsBytesPerLine header))
      in if length line \<noteq> unat (cupsBytesPerLine header) then Inr pbm
         else (case store_row header line y pbm of
                 Inl f \<Rightarrow> Inl f
               | Inr pbm' \<Rightarrow> row_loop header ys ras' pbm'))"

text \<open>
  The result is \<open>None\<close> for \<^verbatim>\<open>NULL\<close>, else the bitmap with \<^verbatim>\<open>*out_width\<close>,
  \<^verbatim>\<open>*out_height\<close> and \<^verbatim>\<open>*out_size\<close>. \<^verbatim>\<open>calloc\<close> gives a block of zeros.
\<close>

definition raster_to_pbm ::
  "cups_page_header2_t \<Rightarrow> byte list list \<Rightarrow> heap
     \<Rightarrow> fault + ((byte list \<times> uint \<times> uint \<times> size_t) option \<times> heap)" where
  "raster_to_pbm header ras hp =
     (let width = cupsWidth header; height = cupsHeight header;
          pbm_size = (ucast (pbm_stride header) :: size_t) * ucast height;
          (pbm_ok, hp1) = alloc hp;
          (line_ok, hp2) = alloc hp1
      in if \<not> pbm_ok \<or> \<not> line_ok then Inr (None, hp2)
         else (case row_loop header [0..<unat height] ras (replicate (unat pbm_size) 0) of
                 Inl f \<Rightarrow> Inl f
               | Inr pbm \<Rightarrow> Inr (Some (pbm, width, height, pbm_size), hp2)))"

subsection \<open>\<^verbatim>\<open>pbm_to_jbig\<close>\<close>

text \<open>
  libjbig is a parameter: \<open>enc pbm width height\<close> is the list of chunks that
  \<^verbatim>\<open>jbg_enc_out\<close>, with the options of line 157, passes to the callback, in call order.
  The result is \<open>None\<close> for \<^verbatim>\<open>NULL\<close>, else \<^verbatim>\<open>buf.data\<close> with \<^verbatim>\<open>*out_size\<close>.
\<close>

type_synonym jbg_enc = "byte list \<Rightarrow> uint \<Rightarrow> uint \<Rightarrow> byte list list"

text \<open>Lines 143 to 146: the buffer once the first \<^verbatim>\<open>malloc\<close> has succeeded.\<close>

definition buf0 :: jbig_buffer_t where
  "buf0 = \<lparr>data = [], size' = 0, capacity = 65536\<rparr>"

definition pbm_to_jbig ::
  "jbg_enc \<Rightarrow> byte list \<Rightarrow> uint \<Rightarrow> uint \<Rightarrow> heap \<Rightarrow> (byte list \<times> size_t) option \<times> heap" where
  "pbm_to_jbig enc pbm width height hp =
     (let (ok, hp1) = alloc hp
      in if \<not> ok then (None, hp1)
         else (let (buf, hp2) = fold jbig_data_cb (enc pbm width height) (buf0, hp1)
               in (Some (data buf, size' buf), hp2)))"

subsection \<open>\<^verbatim>\<open>main\<close>\<close>

text \<open>Lines 248 to 256, the job header.\<close>

definition job_header :: "string \<Rightarrow> string \<Rightarrow> byte list \<Rightarrow> byte list" where
  "job_header timestamp user out =
     fold pjl_printf
       [''@PJL SET TIMESTAMP='' @ timestamp,
        ''@PJL SET FILENAME=Document'',
        ''@PJL SET COMPRESS=JBIG'',
        ''@PJL SET USERNAME='' @ user,
        ''@PJL SET COVER=OFF'',
        ''@PJL SET HOLD=OFF'']
       (out @ 27 # bytes_of ''%-12345X@PJL'' @ [13, 10])"

text \<open>Lines 258 to 273, the page header.\<close>

definition page_header ::
  "cups_page_header2_t \<Rightarrow> uint \<Rightarrow> uint \<Rightarrow> size_t \<Rightarrow> byte list \<Rightarrow> byte list" where
  "page_header header width height jbig_size out =
     (let paper = cups_to_pjl_paper (Some (cupsPageSizeName header));
          resolution = sint (fst (HWResolution header));
          mediasource = (if MediaPosition header = 1 then ''MANUALFEED'' else ''TRAY1'')
      in fold pjl_printf
           [''@PJL SET PAGESTATUS=START'',
            ''@PJL SET COPIES=1'',
            ''@PJL SET MEDIASOURCE='' @ mediasource,
            ''@PJL SET MEDIATYPE=PLAINRECYCLE'',
            ''@PJL SET PAPER='' @ paper,
            ''@PJL SET PAPERWIDTH='' @ dec (unat width),
            ''@PJL SET PAPERLENGTH='' @ dec (unat height),
            ''@PJL SET RESOLUTION='' @ dec_int resolution,
            ''@PJL SET IMAGELEN='' @ dec (unat jbig_size)]
           out)"

text \<open>Lines 279 to 281, the page footer.\<close>

definition page_footer :: "byte list \<Rightarrow> byte list" where
  "page_footer out =
     fold pjl_printf [''@PJL SET DOTCOUNT=1132782'', ''@PJL SET PAGESTATUS=END''] out"

text \<open>Lines 288 and 289, the job footer.\<close>

definition job_footer :: "byte list \<Rightarrow> byte list" where
  "job_footer out = pjl_printf ''@PJL EOJ'' out @ 27 # bytes_of ''%-12345X''"

text \<open>
  Lines 216 to 283, the body of the loop over the pages, for the page whose header was just
  read. The state is \<^verbatim>\<open>page_count\<close>, standard output and the allocator; a \<^verbatim>\<open>continue\<close>
  returns it with nothing written. \<^verbatim>\<open>page_count\<close> is an \<^verbatim>\<open>int\<close>: the sum
  \<^verbatim>\<open>page_count + 1\<close>, first computed on line 225 for the log, is a fault at
  \<open>2 ^ 31 - 1\<close>.
\<close>

type_synonym job_state = "int \<times> byte list \<times> heap"

definition do_page ::
  "jbg_enc \<Rightarrow> string \<Rightarrow> string \<Rightarrow> raster_page \<Rightarrow> job_state \<Rightarrow> fault + job_state" where
  "do_page enc timestamp user page st =
     (let header = fst page; ras = snd page;
          page_count = fst st; out = fst (snd st); hp = snd (snd st)
      in if cupsBytesPerLine header = 0 \<or> cupsHeight header = 0 then Inr (page_count, out, hp)
         else if page_count = 2 ^ 31 - 1 then Inl SignedOverflow
         else
           (case raster_to_pbm header ras hp of
              Inl f \<Rightarrow> Inl f
            | Inr (None, hp1) \<Rightarrow> Inr (page_count, out, hp1)
            | Inr (Some (pbm, width, height, pbm_size), hp1) \<Rightarrow>
                (case pbm_to_jbig enc pbm width height hp1 of
                   (None, hp2) \<Rightarrow> Inr (page_count, out, hp2)
                 | (Some (jbig, jbig_size), hp2) \<Rightarrow>
                     (let out1 = (if page_count = 0 then job_header timestamp user out else out);
                          out2 = page_header header width height jbig_size out1;
                          out3 = write_bytes jbig jbig_size out2;
                          out4 = page_footer out3
                      in Inr (page_count + 1, out4, hp2)))))"

text \<open>Lines 215 to 284: \<^verbatim>\<open>cupsRasterReadHeader2\<close> takes the next page until none is left.\<close>

fun main_loop ::
  "jbg_enc \<Rightarrow> string \<Rightarrow> string \<Rightarrow> raster_page list \<Rightarrow> job_state \<Rightarrow> fault + job_state" where
  "main_loop enc timestamp user [] st = Inr st"
| "main_loop enc timestamp user (page # pages) st =
     (case do_page enc timestamp user page st of
        Inl f \<Rightarrow> Inl f
      | Inr st' \<Rightarrow> main_loop enc timestamp user pages st')"

text \<open>
  What a run is given: the arguments, the files that \<^verbatim>\<open>open\<close> can read, standard input,
  the result of \<^verbatim>\<open>strftime\<close> on the current time, and the allocator.
\<close>

record world =
  argv :: "string list"
  files :: "string \<Rightarrow> byte list option"
  stdin :: "byte list"
  clock :: string
  heap0 :: heap

text \<open>Line 186.\<close>

definition user_of :: "world \<Rightarrow> string" where
  "user_of w = (if int (length (argv w)) > 2 then argv w ! 2 else ''unknown'')"

text \<open>Lines 192 to 200: the bytes behind \<^verbatim>\<open>fd\<close>, or \<open>None\<close> when \<^verbatim>\<open>open\<close> fails.\<close>

definition open_input :: "world \<Rightarrow> byte list option" where
  "open_input w = (if int (length (argv w)) \<ge> 7 then files w (argv w ! 6) else Some (stdin w))"

text \<open>
  The two libraries are parameters of \<open>main\<close>: \<open>ras_open\<close> is \<^verbatim>\<open>cupsRasterOpen\<close> on the
  bytes of the input (\<open>None\<close> for \<^verbatim>\<open>NULL\<close>), \<open>enc\<close> the encoder. The result is the exit
  status and what was written to standard output.
\<close>

definition main ::
  "(byte list \<Rightarrow> raster_page list option) \<Rightarrow> jbg_enc \<Rightarrow> world \<Rightarrow> fault + (int \<times> byte list)" where
  "main ras_open enc w =
     (case open_input w of
        None \<Rightarrow> Inr (1, [])
      | Some input \<Rightarrow>
          (case ras_open input of
             None \<Rightarrow> Inr (1, [])
           | Some pages \<Rightarrow>
               (case main_loop enc (clock w) (user_of w) pages (0, [], heap0 w) of
                  Inl f \<Rightarrow> Inl f
                | Inr (page_count, out, hp) \<Rightarrow>
                    Inr (if page_count > 0 then 0 else 1,
                         if page_count > 0 then job_footer out else out))))"

section \<open>Notions used in the statements\<close>

subsection \<open>The output stream\<close>

text \<open>
  What the loop body writes for one page, lines 265 to 281: the page header, the payload and
  the page footer.
\<close>

definition page_frame ::
  "cups_page_header2_t \<Rightarrow> uint \<Rightarrow> uint \<Rightarrow> byte list \<Rightarrow> size_t \<Rightarrow> byte list" where
  "page_frame header width height jbig jbig_size =
     page_footer (write_bytes jbig jbig_size (page_header header width height jbig_size []))"


subsection \<open>The packed bitmap\<close>

text \<open>
  Pixel \<open>(x, y)\<close> of a packed bitmap with the given row stride: bit \<open>7 - x mod 8\<close> of byte
  \<open>x div 8\<close> of row \<open>y\<close>, so that bit 7 of a byte is the leftmost pixel of its group of
  eight. A position outside the block holds no mark.
\<close>

definition pbm_pixel :: "byte list \<Rightarrow> nat \<Rightarrow> nat \<Rightarrow> nat \<Rightarrow> bool" where
  "pbm_pixel pbm stride x y =
     (let i = y * stride + x div 8 in i < length pbm \<and> bit (pbm ! i) (7 - x mod 8))"

text \<open>
  The lines of a page that \<^verbatim>\<open>raster_to_pbm\<close> reads in full, in order: the loop over the rows
  stops at the first read that returns anything but \<open>len\<close>, and after \<open>n\<close> rows.
\<close>

fun full_lines :: "nat \<Rightarrow> byte list list \<Rightarrow> nat \<Rightarrow> byte list list" where
  "full_lines len ras 0 = []"
| "full_lines len ras (Suc n) =
     (let (line, ras') = cupsRasterReadPixels ras len
      in if length line \<noteq> len then [] else line # full_lines len ras' n)"

definition lines_read :: "cups_page_header2_t \<Rightarrow> byte list list \<Rightarrow> byte list list" where
  "lines_read header ras =
     full_lines (unat (cupsBytesPerLine header)) ras (unat (cupsHeight header))"

text \<open>
  \<open>marks header line dst n i b\<close>: one of the first \<open>n\<close> pixels of the line is black and
  has its place at bit \<open>b\<close> of byte \<open>i\<close>, for a row that starts at byte \<open>dst\<close>.
\<close>

definition marks :: "cups_page_header2_t \<Rightarrow> byte list \<Rightarrow> nat \<Rightarrow> nat \<Rightarrow> nat \<Rightarrow> nat \<Rightarrow> bool" where
  "marks header line dst n i b =
     (\<exists>x<n. black header (line ! x) \<and> i = dst + x div 8 \<and> b + x mod 8 = 7)"

text \<open>
  \<open>row_image header line r\<close>: \<open>r\<close> is the bitmap row that lines 72 to 100 make of a line
  read in full. At one bit per pixel it is the first \<open>pbm_stride\<close> bytes of the line; at
  eight it has exactly the bits of the black pixels; at any other depth it is the bytes of
  the line as far as the line and the row both go, then zeros.
\<close>

definition row_image :: "cups_page_header2_t \<Rightarrow> byte list \<Rightarrow> byte list \<Rightarrow> bool" where
  "row_image header line r =
     (let S = unat (pbm_stride header); W = unat (cupsWidth header)
      in length r = S \<and>
         (if cupsBitsPerPixel header = 1 then r = take S line
          else if cupsBitsPerPixel header = 8 then
            W \<le> length line \<and>
            (\<forall>x<W. black header (line ! x) \<longrightarrow> x div 8 < S) \<and>
            (\<forall>j<S. \<forall>b. bit (r ! j) b \<longleftrightarrow> marks header line 0 W j b)
          else r = take S line @ replicate (S - unat (cupsBytesPerLine header)) 0))"

subsection \<open>Concrete runs\<close>

text \<open>
  Stand-ins for the two libraries and a few inputs, for evaluating the filter. \<open>raster_of\<close>
  opens any input as the given pages; \<open>no_raster\<close> opens none. \<open>echo_enc\<close> hands the
  bitmap to the callback as one chunk; \<open>three_chunks\<close> hands over three chunks, the second
  of which does not fit the first 65536 bytes.
\<close>

definition raster_of :: "raster_page list \<Rightarrow> byte list \<Rightarrow> raster_page list option" where
  "raster_of pages input = Some pages"


definition echo_enc :: jbg_enc where
  "echo_enc pbm width height = [pbm]"

definition three_chunks :: jbg_enc where
  "three_chunks pbm width height = [[1, 2, 3], replicate 65536 0, [4, 5]]"

definition CUPS_CSPACE_K :: uint where "CUPS_CSPACE_K = 3"

text \<open>A page of 8 by 1 pixels at one bit per pixel, and the same with other widths and depths.\<close>

definition page_8x1 :: cups_page_header2_t where
  "page_8x1 = \<lparr>MediaPosition = 0, HWResolution = (600, 600), cupsWidth = 8, cupsHeight = 1,
     cupsBitsPerPixel = 1, cupsBytesPerLine = 1, cupsColorSpace = CUPS_CSPACE_K,
     cupsPageSizeName = ''A4''\<rparr>"

definition page_8x2 :: cups_page_header2_t where
  "page_8x2 = page_8x1\<lparr>cupsHeight := 2\<rparr>"

definition page_1x1 :: cups_page_header2_t where
  "page_1x1 = page_8x1\<lparr>cupsWidth := 1\<rparr>"

definition page_9x1 :: cups_page_header2_t where
  "page_9x1 = page_8x1\<lparr>cupsWidth := 9\<rparr>"

definition page_9x1_2bpp :: cups_page_header2_t where
  "page_9x1_2bpp = page_8x1\<lparr>cupsWidth := 9, cupsBitsPerPixel := 2\<rparr>"

text \<open>A page of 3 by 2 pixels at eight bits per pixel, in either polarity.\<close>

definition gray_3x2 :: "uint \<Rightarrow> cups_page_header2_t" where
  "gray_3x2 cspace = \<lparr>MediaPosition = 0, HWResolution = (600, 600), cupsWidth = 3,
     cupsHeight = 2, cupsBitsPerPixel = 8, cupsBytesPerLine = 3, cupsColorSpace = cspace,
     cupsPageSizeName = ''Letter''\<rparr>"

definition gray_lines :: "byte list list" where
  "gray_lines = [[127, 128, 255], [0, 128, 127]]"

text \<open>
  A run that reads standard input, with the given allocator, a run that names a file
  holding the same bytes, and a run that names a file that cannot be opened.
\<close>

definition stdin_run :: "heap \<Rightarrow> world" where
  "stdin_run hp = \<lparr>argv = [''rastertericoh'', ''7'', ''alice'', ''report'', ''1'', ''-''],
     files = (\<lambda>name. None), stdin = [82, 97, 83, 50], clock = ''2024/01/02 03:04:05'',
     heap0 = hp\<rparr>"



text \<open>The definitions of the program, for evaluating it on a concrete input.\<close>

lemmas prog_defs = main_def open_input_def user_of_def do_page_def raster_to_pbm_def
  pbm_stride_def pbm_to_jbig_def buf0_def jbig_data_cb_def new_cap_def store_row_def memcpy_def
  memset0_def black_def CUPS_CSPACE_W_def CUPS_CSPACE_SW_def

section \<open>The paper name\<close>



lemma cups_to_pjl_paper_examples:
  "cups_to_pjl_paper (Some ''lEtTeR'') = ''LETTER''"
  "cups_to_pjl_paper (Some ''monarch'') = ''MONARCH''"
  "cups_to_pjl_paper (Some ''Tabloid'') = ''A4''"
  "cups_to_pjl_paper (Some ''A4.Borderless'') = ''A4''"
  by code_simp+

section \<open>The JBIG output buffer\<close>

lemma unat_size_add:
  fixes s :: size_t
  assumes "unat s + n < 2 ^ 64"
  shows "unat (s + of_nat n) = unat s + n"
  using assms by (simp add: unat_word_ariths unat_of_nat take_bit_nat_eq_self)

text \<open>
  C7. The buffer starts with a capacity of 65536 bytes. A chunk that fits leaves the capacity
  as it is. A chunk that does not fit makes the callback ask for twice the capacity, or, when
  twice the capacity is still less than the size needed, for the size needed (the length so
  far plus the length of the chunk) plus 65536; when \<^verbatim>\<open>realloc\<close> returns a block, that is
  the new capacity. The sizes are those of objects in memory, so the sums stay below
  \<open>2 ^ 64\<close>.
\<close>

theorem jbig_buffer_capacity:
  assumes "unat (size' buf) + length start + 65536 < 2 ^ 64"
      and "2 * unat (capacity buf) < 2 ^ 64"
      and "fst (alloc hp)"
  shows "capacity buf0 = 65536 \<and>
         unat (capacity (fst (jbig_data_cb start (buf, hp)))) =
           (if unat (size' buf) + length start \<le> unat (capacity buf) then unat (capacity buf)
            else if 2 * unat (capacity buf) < unat (size' buf) + length start
                 then unat (size' buf) + length start + 65536
                 else 2 * unat (capacity buf))"
proof -
  have n: "unat (size' buf + of_nat (length start)) = unat (size' buf) + length start"
    using assms(1) by (intro unat_size_add) simp
  have d: "unat (capacity buf * 2) = 2 * unat (capacity buf)"
    using assms(2) by (simp add: unat_word_ariths take_bit_nat_eq_self)
  have e: "unat (size' buf + of_nat (length start) + 65536)
             = unat (size' buf) + length start + 65536"
    using assms(1) n by (simp add: unat_word_ariths take_bit_nat_eq_self)
  have "unat (capacity (fst (jbig_data_cb start (buf, hp)))) =
           (if unat (size' buf) + length start \<le> unat (capacity buf) then unat (capacity buf)
            else if 2 * unat (capacity buf) < unat (size' buf) + length start
                 then unat (size' buf) + length start + 65536
                 else 2 * unat (capacity buf))"
    using assms(3) n d e
    by (cases "alloc hp") (auto simp add: jbig_data_cb_def new_cap_def word_less_nat_alt Let_def)
  then show ?thesis
    by (simp add: buf0_def)
qed

theorem jbig_buffer_capacity_witness:
  "unat (size' \<lparr>data = replicate 65530 1, size' = 65530, capacity = 65536\<rparr>)
      + length (replicate 10 (0 :: byte)) + 65536 < 2 ^ 64
   \<and> 2 * unat (capacity \<lparr>data = replicate 65530 1, size' = 65530, capacity = 65536\<rparr>) < 2 ^ 64
   \<and> fst (alloc [])
   \<and> capacity (fst (jbig_data_cb (replicate 10 0)
        (\<lparr>data = replicate 65530 1, size' = 65530, capacity = 65536\<rparr>, []))) = 131072"
  using jbig_buffer_capacity
    [of "\<lparr>data = replicate 65530 1, size' = 65530, capacity = 65536\<rparr>" "replicate 10 0" "[]"]
  by (simp add: jbig_data_cb_def new_cap_def)

lemma jbig_data_cb_stores:
  "data (fst (jbig_data_cb c (buf, []))) = data buf @ c"
  "snd (jbig_data_cb c (buf, [])) = []"
  by (simp_all add: jbig_data_cb_def Let_def)

text \<open>As long as no \<^verbatim>\<open>realloc\<close> fails, the buffer holds every chunk, in call order.\<close>

lemma jbig_data_cb_accumulates:
  "fold jbig_data_cb chunks (buf, []) = (buf', hp')
     \<Longrightarrow> data buf' = data buf @ concat chunks \<and> hp' = []"
proof (induction chunks arbitrary: buf)
  case Nil
  then show ?case by simp
next
  case (Cons c chunks)
  obtain b1 where b1: "jbig_data_cb c (buf, []) = (b1, [])" "data b1 = data buf @ c"
    using jbig_data_cb_stores [of c buf] by (cases "jbig_data_cb c (buf, [])") simp
  with Cons.prems have "fold jbig_data_cb chunks (b1, []) = (buf', hp')" by simp
  from Cons.IH [OF this] b1(2) show ?case by simp
qed

text \<open>A chunk that does not fit is lost when \<^verbatim>\<open>realloc\<close> fails; the buffer stays as it was.\<close>

lemma jbig_data_cb_realloc_fails:
  assumes "capacity buf < size' buf + of_nat (length start)"
  shows "jbig_data_cb start (buf, False # hp) = (buf, hp)"
  using assms by (simp add: jbig_data_cb_def)

section \<open>The output stream\<close>

lemma pjl_printf_append: "pjl_printf s out = out @ pjl_printf s []"
  by (simp add: pjl_printf_def)

lemma fold_pjl_printf_append: "fold pjl_printf ls out = out @ fold pjl_printf ls []"
proof (induction ls arbitrary: out)
  case Nil
  show ?case by simp
next
  case (Cons l ls)
  have "fold pjl_printf (l # ls) out = fold pjl_printf ls (pjl_printf l out)" by simp
  also have "\<dots> = pjl_printf l out @ fold pjl_printf ls []" by (rule Cons.IH)
  also have "\<dots> = out @ pjl_printf l [] @ fold pjl_printf ls []"
    by (simp add: pjl_printf_def)
  also have "pjl_printf l [] @ fold pjl_printf ls [] = fold pjl_printf ls (pjl_printf l [])"
    by (rule Cons.IH [symmetric])
  finally show ?case by simp
qed


lemma page_frame_append:
  "page_footer (write_bytes jbig n (page_header h w ht n out)) = out @ page_frame h w ht jbig n"
proof -
  have a: "page_header h w ht n out = out @ page_header h w ht n []"
    unfolding page_header_def Let_def by (rule fold_pjl_printf_append)
  have b: "page_footer x = x @ page_footer []" for x
    unfolding page_footer_def by (rule fold_pjl_printf_append)
  show ?thesis
    unfolding page_frame_def
    by (subst b, subst (2) b, subst a) (simp add: write_bytes_def)
qed

lemma job_footer_append: "job_footer out = out @ job_footer []"
  by (simp add: job_footer_def pjl_printf_def)



text \<open>
  C1. The claim: every byte of every callback invocation is kept, and a page on which a
  \<^verbatim>\<open>realloc\<close> fails is abandoned, with no envelope and no payload. The program at a
  failing \<^verbatim>\<open>realloc\<close>: the encoder hands over the chunks \<open>[1, 2, 3]\<close>, 65536 zero bytes
  and \<open>[4, 5]\<close>; the two allocations of \<^verbatim>\<open>raster_to_pbm\<close> and the first \<^verbatim>\<open>malloc\<close> of
  the buffer succeed, the \<^verbatim>\<open>realloc\<close> for the second chunk fails. The callback returns
  without storing the second chunk, the third chunk is stored behind the first, and \<open>main\<close>
  writes the page with \<open>IMAGELEN=5\<close> and the payload \<open>[1, 2, 3, 4, 5]\<close>, and exits with
  status 0.
\<close>

theorem realloc_failure_page_emitted:
  "main (raster_of [(page_8x1, [[0]])]) three_chunks (stdin_run [True, True, True, False]) =
     Inr (0, job_header ''2024/01/02 03:04:05'' ''alice'' []
               @ page_frame page_8x1 8 1 [1, 2, 3, 4, 5] 5
               @ job_footer [])"
proof -
  have "main (raster_of [(page_8x1, [[0]])]) three_chunks (stdin_run [True, True, True, False]) =
     Inr (0, job_footer (page_footer (write_bytes [1, 2, 3, 4, 5] 5 (page_header page_8x1 8 1 5
               (job_header ''2024/01/02 03:04:05'' ''alice'' [])))))"
    by (simp add: prog_defs raster_of_def three_chunks_def stdin_run_def page_8x1_def
          CUPS_CSPACE_K_def)
  then show ?thesis
    by (simp add: page_frame_append job_footer_append [of "_ @ _"])
qed








section \<open>The bitmap\<close>

subsection \<open>The loop over the pixels\<close>

lemma bit_mask_byte: "bit (drop_bit m (0x80 :: byte)) b \<longleftrightarrow> b + m = 7"
proof -
  have "(0x80 :: byte) = 2 ^ 7" by simp
  then have "bit (drop_bit m (0x80 :: byte)) b \<longleftrightarrow> bit (2 ^ 7 :: byte) (m + b)"
    by (simp only: bit_drop_bit_eq comp_def)
  also have "\<dots> \<longleftrightarrow> m + b = 7"
    unfolding bit_exp_iff possible_bit_word by auto
  finally show ?thesis by (simp add: add.commute)
qed

lemma threshold_loop_snoc:
  "threshold_loop h line dst (xs @ [x]) pbm =
     (case threshold_loop h line dst xs pbm of
        Inl f \<Rightarrow> Inl f
      | Inr p \<Rightarrow> threshold_loop h line dst [x] p)"
  by (induction xs arbitrary: pbm) simp_all

lemma marks_Suc:
  "marks h line dst (Suc n) i b \<longleftrightarrow>
     marks h line dst n i b \<or> (black h (line ! n) \<and> i = dst + n div 8 \<and> b + n mod 8 = 7)"
  by (auto simp add: marks_def less_Suc_eq)

text \<open>
  When the loop over \<open>x\<close> ends without a fault, every pixel was inside the line, every
  black pixel had its byte inside the block, and the block has gained exactly the bits of
  the black pixels.
\<close>

lemma threshold_loop_upt:
  assumes "threshold_loop h line dst [0..<n] pbm = Inr pbm'"
  shows "length pbm' = length pbm \<and> n \<le> length line \<and>
         (\<forall>x<n. black h (line ! x) \<longrightarrow> dst + x div 8 < length pbm) \<and>
         (\<forall>i<length pbm. \<forall>b. bit (pbm' ! i) b \<longleftrightarrow> bit (pbm ! i) b \<or> marks h line dst n i b)"
  using assms
proof (induction n arbitrary: pbm')
  case 0
  then show ?case by (simp add: marks_def)
next
  case (Suc n)
  from Suc.prems obtain p where
    pre: "threshold_loop h line dst [0..<n] pbm = Inr p" and
    last: "threshold_loop h line dst [n] p = Inr pbm'"
    by (auto simp add: threshold_loop_snoc split: sum.splits)
  note ih = Suc.IH [OF pre]
  from last have inl: "n < length line"
    by (auto split: if_splits)
  show ?case
  proof (cases "black h (line ! n)")
    case False
    with last inl have "pbm' = p" by simp
    with ih inl False show ?thesis
      by (auto simp add: marks_Suc less_Suc_eq)
  next
    case True
    with last inl have inb: "dst + n div 8 < length p"
      and upd: "pbm' = p[dst + n div 8 := p ! (dst + n div 8) OR drop_bit (n mod 8) 0x80]"
      by (auto split: if_splits)
    have len: "length pbm' = length pbm" using upd ih by simp
    have bits: "bit (pbm' ! i) b \<longleftrightarrow> bit (pbm ! i) b \<or> marks h line dst (Suc n) i b"
      if "i < length pbm" for i b
    proof (cases "i = dst + n div 8")
      case True
      with upd inb have "pbm' ! i = p ! i OR drop_bit (n mod 8) 0x80" by simp
      then have "bit (pbm' ! i) b \<longleftrightarrow> bit (p ! i) b \<or> b + n mod 8 = 7"
        by (simp add: bit_or_iff bit_mask_byte)
      with ih that True \<open>black h (line ! n)\<close> show ?thesis
        by (auto simp add: marks_Suc)
    next
      case False
      with upd have "pbm' ! i = p ! i" by simp
      with ih that False show ?thesis
        by (auto simp add: marks_Suc)
    qed
    from ih inl inb True len bits show ?thesis
      by (auto simp add: less_Suc_eq)
  qed
qed

subsection \<open>The row stride\<close>

lemma unat_pbm_stride:
  "unat (pbm_stride h) = ((unat (cupsWidth h) + 7) mod 2 ^ 32) div 8"
  by (simp add: pbm_stride_def unat_div unat_word_ariths)

text \<open>
  The stride covers the width unless \<open>cupsWidth + 7\<close> wraps around, and then it is zero.
\<close>

lemma stride_cover:
  "unat (cupsWidth h) \<le> 8 * unat (pbm_stride h) \<or> pbm_stride h = 0"
proof -
  let ?w = "unat (cupsWidth h)"
  have lt: "?w < 2 ^ 32" using unsigned_less [of "cupsWidth h", where ?'a = nat] by simp
  show ?thesis
  proof (cases "?w + 7 < 2 ^ 32")
    case True
    then have "unat (pbm_stride h) = (?w + 7) div 8" by (simp add: unat_pbm_stride)
    then show ?thesis by linarith
  next
    case False
    then have "(?w + 7) mod 2 ^ 32 = ?w + 7 - 2 ^ 32"
      using lt by (simp add: mod_if)
    with lt have "unat (pbm_stride h) = 0" by (simp add: unat_pbm_stride)
    then show ?thesis by (simp add: unat_eq_0)
  qed
qed

lemma stride_le_ceil: "unat (pbm_stride h) \<le> (unat (cupsWidth h) + 7) div 8"
proof -
  have "((unat (cupsWidth h) + 7) mod 2 ^ 32) div 8 \<le> (unat (cupsWidth h) + 7) div 8"
    by (intro div_le_mono mod_less_eq_dividend)
  then show ?thesis by (simp add: unat_pbm_stride)
qed

lemma unat_pbm_size:
  fixes s ht :: uint
  shows "unat ((ucast s :: size_t) * ucast ht) = unat s * unat ht"
proof -
  have a: "unat s < 2 ^ 32" using unsigned_less [of s, where ?'a = nat] by simp
  have b: "unat ht < 2 ^ 32" using unsigned_less [of ht, where ?'a = nat] by simp
  have "unat s * unat ht < 2 ^ 32 * 2 ^ 32"
    using a b by (intro mult_strict_mono) simp_all
  then have "unat s * unat ht < 2 ^ 64" by simp
  moreover have "unat (ucast s :: size_t) = unat s"
    using a by (simp add: unsigned_ucast_eq take_bit_nat_eq_self)
  moreover have "unat (ucast ht :: size_t) = unat ht"
    using b by (simp add: unsigned_ucast_eq take_bit_nat_eq_self)
  ultimately show ?thesis
    by (simp add: unat_word_ariths take_bit_nat_eq_self)
qed

lemma row_fits:
  assumes "y < H" and "length pbm = S * H"
  shows "y * S + S \<le> length (pbm :: byte list)"
proof -
  have "Suc y * S \<le> H * S" using assms(1) by (intro mult_le_mono1) simp
  then show ?thesis using assms(2) by (simp add: mult.commute)
qed

subsection \<open>One row\<close>

lemma same_bits_same_byte:
  fixes a b :: byte
  assumes "\<And>n. bit a n \<longleftrightarrow> bit b n"
  shows "a = b"
  using assms by (rule bit_eqI)

lemma drop_eqI:
  assumes "length a = length b" and "\<And>i. n \<le> i \<Longrightarrow> i < length b \<Longrightarrow> a ! i = b ! i"
  shows "drop n a = drop n b"
  using assms by (intro nth_equalityI) simp_all

lemma take_eqI:
  assumes "length a = length b" and "\<And>i. i < n \<Longrightarrow> i < length b \<Longrightarrow> a ! i = b ! i"
  shows "take n a = take n b"
  using assms by (intro nth_equalityI) simp_all

lemma row_image_length: "row_image h line r \<Longrightarrow> length r = unat (pbm_stride h)"
  by (simp add: row_image_def Let_def)

text \<open>
  Row \<open>k\<close> of a block whose rows from \<open>k\<close> on are still zero: when \<open>store_row\<close> ends
  without a fault it has put the image of the line in the place of row \<open>k\<close> and touched
  nothing else.
\<close>

lemma store_row_image:
  assumes ok: "store_row h line k pbm = Inr pbm'"
      and line: "length line = unat (cupsBytesPerLine h)"
      and pre: "length pre = k * unat (pbm_stride h)"
      and pbm: "pbm = pre @ replicate (Suc m * unat (pbm_stride h)) 0"
  shows "\<exists>r. row_image h line r \<and> pbm' = pre @ r @ replicate (m * unat (pbm_stride h)) 0"
proof -
  let ?S = "unat (pbm_stride h)"
  let ?W = "unat (cupsWidth h)"
  let ?B = "unat (cupsBytesPerLine h)"
  let ?dst = "k * ?S"
  have tk: "take ?dst pbm = pre" using pre pbm by simp
  have len: "length pbm = ?dst + ?S + m * ?S" using pre pbm by simp
  consider (one) "cupsBitsPerPixel h = 1"
    | (eight) "cupsBitsPerPixel h = 8"
    | (other) "cupsBitsPerPixel h \<noteq> 1" "cupsBitsPerPixel h \<noteq> 8"
    by blast
  then show ?thesis
  proof cases
    case one
    with ok have cp: "memcpy pbm ?dst line ?S = Inr pbm'"
      by (simp add: store_row_def Let_def)
    then have fit: "?S \<le> length line"
      and res: "pbm' = take ?dst pbm @ take ?S line @ drop (?dst + ?S) pbm"
      by (auto simp add: memcpy_def split: if_splits)
    have dr: "drop (?dst + ?S) pbm = replicate (m * ?S) 0" using pre pbm by simp
    have "row_image h line (take ?S line)"
      using one fit by (simp add: row_image_def Let_def)
    with res tk dr show ?thesis by auto
  next
    case other
    let ?n = "unat (if pbm_stride h < cupsBytesPerLine h then pbm_stride h
                    else cupsBytesPerLine h)"
    have n: "?n = min ?S ?B" by (auto simp add: word_less_nat_alt)
    from other ok have cp: "memcpy pbm ?dst line ?n = Inr pbm'"
      by (simp add: store_row_def Let_def)
    then have res: "pbm' = take ?dst pbm @ take ?n line @ drop (?dst + ?n) pbm"
      by (auto simp add: memcpy_def split: if_splits)
    have tl: "take ?n line = take ?S line" using n line by (simp add: min_def)
    have "drop (?dst + ?n) pbm = replicate (Suc m * ?S - ?n) 0" using pre pbm by simp
    also have "Suc m * ?S - ?n = (?S - ?B) + m * ?S" using n by (auto simp add: min_def)
    finally have dr: "drop (?dst + ?n) pbm = replicate (?S - ?B) 0 @ replicate (m * ?S) 0"
      by (simp add: replicate_add)
    have "row_image h line (take ?S line @ replicate (?S - ?B) 0)"
      using other line by (auto simp add: row_image_def Let_def min_def)
    with res tk dr tl show ?thesis by auto
  next
    case eight
    have ms: "memset0 pbm ?dst ?S = Inr pbm"
      using pre pbm by (simp add: memset0_def replicate_add [symmetric])
    with eight ok have tl: "threshold_loop h line ?dst [0..<?W] pbm = Inr pbm'"
      by (simp add: store_row_def Let_def)
    note inv = threshold_loop_upt [OF tl]
    from inv have len': "length pbm' = length pbm" by blast
    from inv have wl: "?W \<le> length line" by blast
    from inv have inb: "black h (line ! x) \<Longrightarrow> ?dst + x div 8 < length pbm" if "x < ?W" for x
      using that by blast
    from inv have bits: "bit (pbm' ! i) b \<longleftrightarrow> bit (pbm ! i) b \<or> marks h line ?dst ?W i b"
      if "i < length pbm" for i b
      using that by blast
    have inrow: "x div 8 < ?S" if "x < ?W" "black h (line ! x)" for x
    proof (cases "pbm_stride h = 0")
      case True
      then have "length pbm = ?dst" using len by simp
      with inb [OF that] show ?thesis by simp
    next
      case False
      with stride_cover [of h] that(1) show ?thesis by linarith
    qed
    have zero: "pbm ! i = 0" if "?dst \<le> i" "i < length pbm" for i
      using that pre pbm by (simp add: nth_append)
    have mk: "marks h line ?dst ?W (?dst + j) b \<longleftrightarrow> marks h line 0 ?W j b" for j b
      by (simp add: marks_def)
    have out: "pbm' ! i = pbm ! i" if "i < length pbm" "i < ?dst \<or> ?dst + ?S \<le> i" for i
    proof (rule same_bits_same_byte)
      fix n
      have "\<not> marks h line ?dst ?W i n"
      proof
        assume "marks h line ?dst ?W i n"
        then obtain x where x: "x < ?W" "black h (line ! x)" "i = ?dst + x div 8"
          by (auto simp add: marks_def)
        from inrow [OF x(1,2)] x(3) that(2) show False by simp
      qed
      with bits [OF that(1)] show "bit (pbm' ! i) n \<longleftrightarrow> bit (pbm ! i) n" by simp
    qed
    define r where "r = take ?S (drop ?dst pbm')"
    have lr: "length r = ?S" using len len' by (simp add: r_def)
    have rj: "r ! j = pbm' ! (?dst + j)" if "j < ?S" for j
      using that len len' by (simp add: r_def)
    have rb: "bit (r ! j) b \<longleftrightarrow> marks h line 0 ?W j b" if "j < ?S" for j b
    proof -
      have i: "?dst + j < length pbm" using that len by simp
      from zero [OF _ i] have "pbm ! (?dst + j) = 0" by simp
      with bits [OF i, of b] rj [OF that] mk show ?thesis by simp
    qed
    have img: "row_image h line r"
      using eight lr rb inrow wl by (simp add: row_image_def Let_def)
    have t: "take ?dst pbm' = pre"
    proof -
      have "take ?dst pbm' = take ?dst pbm"
        using len' out by (intro take_eqI) simp_all
      with tk show ?thesis by simp
    qed
    have d: "drop (?dst + ?S) pbm' = replicate (m * ?S) 0"
    proof -
      have "drop (?dst + ?S) pbm' = drop (?dst + ?S) pbm"
        using len' out by (intro drop_eqI) simp_all
      then show ?thesis using pre pbm by simp
    qed
    have "pbm' = take ?dst pbm' @ take ?S (drop ?dst pbm') @ drop ?S (drop ?dst pbm')"
      by (simp only: append_take_drop_id)
    also have "drop ?S (drop ?dst pbm') = drop (?dst + ?S) pbm'"
      by (simp add: add.commute)
    finally have "pbm' = pre @ r @ replicate (m * ?S) 0"
      using t d by (simp add: r_def)
    with img show ?thesis by blast
  qed
qed

subsection \<open>The loop over the rows\<close>

lemma full_lines_length: "length (full_lines len ras n) \<le> n"
  by (induction n arbitrary: ras) (auto simp add: Let_def split: prod.splits)

lemma lines_read_length: "length (lines_read h ras) \<le> unat (cupsHeight h)"
  by (simp add: lines_read_def full_lines_length)

lemma read_zero: "fst (cupsRasterReadPixels ras 0) = []"
  by (cases ras) simp_all

lemma full_lines_zero: "length (full_lines 0 ras n) = n"
proof (induction n arbitrary: ras)
  case 0
  show ?case by simp
next
  case (Suc n)
  obtain line ras' where rd: "cupsRasterReadPixels ras 0 = (line, ras')"
    by (cases "cupsRasterReadPixels ras 0")
  with read_zero [of ras] have "line = []" by simp
  with rd Suc.IH [of ras'] show ?case by simp
qed

lemma row_loop_image:
  assumes "row_loop h [k..<k + m] ras pbm = Inr pbm'"
      and "length pre = k * unat (pbm_stride h)"
      and "pbm = pre @ replicate (m * unat (pbm_stride h)) 0"
  shows "\<exists>rows. list_all2 (row_image h) (full_lines (unat (cupsBytesPerLine h)) ras m) rows \<and>
           pbm' = pre @ concat rows @ replicate ((m - length rows) * unat (pbm_stride h)) 0"
  using assms
proof (induction m arbitrary: k ras pre pbm)
  case 0
  then have "list_all2 (row_image h) (full_lines (unat (cupsBytesPerLine h)) ras 0) [] \<and>
           pbm' = pre @ concat []
                    @ replicate ((0 - length ([] :: byte list list)) * unat (pbm_stride h)) 0"
    by simp
  then show ?case by blast
next
  case (Suc m)
  let ?S = "unat (pbm_stride h)"
  let ?B = "unat (cupsBytesPerLine h)"
  obtain line ras' where rd: "cupsRasterReadPixels ras ?B = (line, ras')"
    by (cases "cupsRasterReadPixels ras ?B")
  have up: "[k..<k + Suc m] = k # [Suc k..<Suc k + m]"
    by (simp add: upt_conv_Cons)
  show ?case
  proof (cases "length line = ?B")
    case False
    with Suc.prems(1) rd up have "pbm' = pbm" by simp
    with Suc.prems(3) False rd
    have "list_all2 (row_image h) (full_lines ?B ras (Suc m)) [] \<and>
           pbm' = pre @ concat [] @ replicate ((Suc m - length ([] :: byte list list)) * ?S) 0"
      by simp
    then show ?thesis by blast
  next
    case True
    with Suc.prems(1) rd up obtain p where
      st: "store_row h line k pbm = Inr p" and
      rest: "row_loop h [Suc k..<Suc k + m] ras' p = Inr pbm'"
      by (auto split: sum.splits)
    from store_row_image [OF st True Suc.prems(2) Suc.prems(3)] obtain r where
      r: "row_image h line r" and p: "p = pre @ r @ replicate (m * ?S) 0"
      by blast
    from r have lr: "length r = ?S" by (rule row_image_length)
    have lp: "length (pre @ r) = Suc k * ?S" using lr Suc.prems(2) by simp
    have p': "p = (pre @ r) @ replicate (m * ?S) 0" using p by simp
    from Suc.IH [OF rest lp p'] obtain rows where
      rows: "list_all2 (row_image h) (full_lines ?B ras' m) rows"
      and res: "pbm' = (pre @ r) @ concat rows @ replicate ((m - length rows) * ?S) 0"
      by blast
    have "list_all2 (row_image h) (full_lines ?B ras (Suc m)) (r # rows) \<and>
           pbm' = pre @ concat (r # rows) @ replicate ((Suc m - length (r # rows)) * ?S) 0"
      using rows res r rd True by simp
    then show ?thesis by blast
  qed
qed

text \<open>
  The bitmap that \<^verbatim>\<open>raster_to_pbm\<close> returns: the images of the lines read in full, in
  order, then zeros up to \<open>pbm_stride * cupsHeight\<close> bytes.
\<close>

lemma raster_to_pbm_image:
  assumes "raster_to_pbm h ras hp = Inr (Some (pbm, w, ht, sz), hp')"
  shows "w = cupsWidth h \<and> ht = cupsHeight h \<and>
         unat sz = unat (pbm_stride h) * unat (cupsHeight h) \<and>
         (\<exists>rows. list_all2 (row_image h) (lines_read h ras) rows \<and>
            pbm = concat rows @
                  replicate ((unat (cupsHeight h) - length rows) * unat (pbm_stride h)) 0)"
proof -
  let ?S = "unat (pbm_stride h)"
  let ?H = "unat (cupsHeight h)"
  from assms have
    loop: "row_loop h [0..<?H] ras (replicate (?S * ?H) 0) = Inr pbm"
    and w: "w = cupsWidth h" "ht = cupsHeight h"
    and sz: "sz = (ucast (pbm_stride h) :: size_t) * ucast (cupsHeight h)"
    by (auto simp add: raster_to_pbm_def Let_def unat_pbm_size
             split: prod.splits if_splits sum.splits)
  have "row_loop h [0..<0 + ?H] ras (replicate (?S * ?H) 0) = Inr pbm"
    using loop by simp
  from row_loop_image [OF this, of "[]"] obtain rows where
    "list_all2 (row_image h) (full_lines (unat (cupsBytesPerLine h)) ras ?H) rows"
    "pbm = concat rows @ replicate ((?H - length rows) * ?S) 0"
    by (auto simp add: mult.commute)
  with w sz show ?thesis
    by (auto simp add: lines_read_def unat_pbm_size)
qed

lemma concat_rows_nth:
  assumes "\<forall>r\<in>set rows. length r = S" and "y < length rows" and "j < S"
  shows "(concat rows @ rest) ! (y * S + j) = rows ! y ! j"
  using assms
proof (induction rows arbitrary: y)
  case Nil
  then show ?case by simp
next
  case (Cons r rows)
  show ?case
  proof (cases y)
    case 0
    with Cons.prems show ?thesis by (simp add: nth_append)
  next
    case (Suc y')
    with Cons.prems have "((concat rows) @ rest) ! (y' * S + j) = rows ! y' ! j"
      by (intro Cons.IH) simp_all
    moreover have "(r @ concat rows @ rest) ! (S + (y' * S + j))
        = (concat rows @ rest) ! (y' * S + j)"
      using Cons.prems(1) by (simp add: nth_append)
    ultimately show ?thesis using Suc by (simp add: add.assoc)
  qed
qed

lemma concat_rows_length:
  assumes "\<forall>r\<in>set rows. length r = S"
  shows "length (concat rows) = length rows * S"
  using assms by (induction rows) simp_all

lemma rows_lengths:
  assumes "list_all2 (row_image h) ls rows"
  shows "\<forall>r\<in>set rows. length r = unat (pbm_stride h)"
  using assms by (induction rule: list_all2_induct) (simp_all add: row_image_length)

lemma pixel_unique:
  fixes x x' :: nat
  assumes "x' div 8 = x div 8" and "(7 - x mod 8) + x' mod 8 = 7"
  shows "x' = x"
proof -
  have "x mod 8 < 8" by simp
  with assms(2) have "x' mod 8 = x mod 8" by linarith
  with assms(1) show ?thesis by (metis div_mult_mod_eq)
qed

lemma raster_to_pbm_size:
  assumes "raster_to_pbm h ras hp = Inr (Some (pbm, w, ht, sz), hp')"
  shows "length pbm = unat (pbm_stride h) * unat (cupsHeight h)"
proof -
  from raster_to_pbm_image [OF assms] obtain rows where
    rows: "list_all2 (row_image h) (lines_read h ras) rows"
    and pbm: "pbm = concat rows @
                replicate ((unat (cupsHeight h) - length rows) * unat (pbm_stride h)) 0"
    by blast
  have lr: "length rows \<le> unat (cupsHeight h)"
    using rows lines_read_length [of h ras] by (simp add: list_all2_lengthD [symmetric])
  have "length pbm = length rows * unat (pbm_stride h)
          + (unat (cupsHeight h) - length rows) * unat (pbm_stride h)"
    using pbm concat_rows_length [OF rows_lengths [OF rows]] by simp
  also have "\<dots> = unat (cupsHeight h) * unat (pbm_stride h)"
    using lr by (simp add: add_mult_distrib [symmetric])
  finally show ?thesis by (simp add: mult.commute)
qed

subsection \<open>Eight bits per pixel: the threshold\<close>

text \<open>
  C6. On a page of eight bits per pixel, take a line that was read in full, row \<open>y\<close>, and a
  pixel \<open>x\<close> below the width. The pixel lies inside the line, and in the bitmap the bit of
  pixel \<open>(x, y)\<close>, counted from the most significant bit of each byte, is set exactly when
  the value is below 128 under the colour spaces \<^verbatim>\<open>CUPS_CSPACE_W\<close> and
  \<^verbatim>\<open>CUPS_CSPACE_SW\<close>, and exactly when it is 128 or more under any other colour space,
  \<^verbatim>\<open>CUPS_CSPACE_K\<close> among them: 127 is no mark and 128 is a mark under K, and the other
  way round under W. Unless \<open>cupsWidth + 7\<close> wraps around, the byte of the pixel lies inside
  the bitmap.
\<close>

theorem threshold_classification:
  assumes ok: "raster_to_pbm h ras hp = Inr (Some (pbm, w, ht, sz), hp')"
      and bpp: "cupsBitsPerPixel h = 8"
      and y: "y < length (lines_read h ras)"
      and x: "x < unat (cupsWidth h)"
  shows "x < length (lines_read h ras ! y) \<and>
         (pbm_pixel pbm (unat (pbm_stride h)) x y \<longleftrightarrow>
            (if cupsColorSpace h = CUPS_CSPACE_W \<or> cupsColorSpace h = CUPS_CSPACE_SW
             then lines_read h ras ! y ! x < 128
             else 128 \<le> lines_read h ras ! y ! x)) \<and>
         (unat (cupsWidth h) + 7 < 2 ^ 32
            \<longrightarrow> y * unat (pbm_stride h) + x div 8 < length pbm)"
proof -
  let ?S = "unat (pbm_stride h)"
  let ?W = "unat (cupsWidth h)"
  let ?line = "lines_read h ras ! y"
  from raster_to_pbm_image [OF ok] obtain rows where
    rows: "list_all2 (row_image h) (lines_read h ras) rows"
    and pbm: "pbm = concat rows @
                replicate ((unat (cupsHeight h) - length rows) * ?S) 0"
    by blast
  have yl: "y < length rows" using rows y by (simp add: list_all2_lengthD [symmetric])
  have img: "row_image h ?line (rows ! y)"
    using rows y by (rule list_all2_nthD)
  with bpp have wl: "?W \<le> length ?line"
    and fit: "\<And>x. x < ?W \<Longrightarrow> black h (?line ! x) \<Longrightarrow> x div 8 < ?S"
    and bits: "\<And>j b. j < ?S \<Longrightarrow> bit (rows ! y ! j) b \<longleftrightarrow> marks h ?line 0 ?W j b"
    by (simp_all add: row_image_def Let_def)
  have nth: "pbm ! (y * ?S + j) = rows ! y ! j" if "j < ?S" for j
    unfolding pbm using rows_lengths [OF rows] yl that by (rule concat_rows_nth)
  have len: "length pbm = ?S * unat (cupsHeight h)"
    using ok by (rule raster_to_pbm_size)
  have inside: "y * ?S + x div 8 < length pbm" if "x div 8 < ?S"
  proof -
    have "y * ?S + x div 8 < Suc y * ?S" using that by simp
    also have "\<dots> \<le> unat (cupsHeight h) * ?S"
      using y lines_read_length [of h ras] by (intro mult_le_mono1) simp
    finally show ?thesis using len by (simp add: mult.commute)
  qed
  have "pbm_pixel pbm ?S x y \<longleftrightarrow> black h (?line ! x)"
  proof (cases "x div 8 < ?S")
    case True
    then have "pbm_pixel pbm ?S x y \<longleftrightarrow> marks h ?line 0 ?W (x div 8) (7 - x mod 8)"
      using nth [OF True] bits [OF True] inside by (simp add: pbm_pixel_def Let_def)
    also have "\<dots> \<longleftrightarrow> black h (?line ! x)"
    proof
      assume "marks h ?line 0 ?W (x div 8) (7 - x mod 8)"
      then obtain x' where "black h (?line ! x')" "x div 8 = x' div 8"
          "7 - x mod 8 + x' mod 8 = 7"
        by (auto simp add: marks_def)
      with pixel_unique [of x' x] show "black h (?line ! x)" by simp
    next
      assume "black h (?line ! x)"
      moreover have "7 - x mod 8 + x mod 8 = 7"
        using mod_less_divisor [of 8 x] by linarith
      ultimately show "marks h ?line 0 ?W (x div 8) (7 - x mod 8)"
        using x by (auto simp add: marks_def)
    qed
    finally show ?thesis .
  next
    case False
    with fit [OF x] have nb: "\<not> black h (?line ! x)" by blast
    from False stride_cover [of h] x have "pbm_stride h = 0" by linarith
    with len have "pbm = []" by simp
    with nb show ?thesis by (simp add: pbm_pixel_def)
  qed
  then have cls: "pbm_pixel pbm ?S x y \<longleftrightarrow>
            (if cupsColorSpace h = CUPS_CSPACE_W \<or> cupsColorSpace h = CUPS_CSPACE_SW
             then ?line ! x < 128 else 128 \<le> ?line ! x)"
    by (simp add: black_def)
  have "y * ?S + x div 8 < length pbm" if "?W + 7 < 2 ^ 32"
  proof -
    from that have "?S = (?W + 7) div 8" by (simp add: unat_pbm_stride)
    with x have "x div 8 < ?S" by linarith
    then show ?thesis by (rule inside)
  qed
  with wl x cls show ?thesis by simp
qed

lemma gray_lines_read: "lines_read (gray_3x2 c) gray_lines = gray_lines"
  by code_simp

lemma gray_K_bitmap:
  "raster_to_pbm (gray_3x2 CUPS_CSPACE_K) gray_lines [] = Inr (Some ([96, 64], 3, 2, 2), [])"
  by code_simp

lemma gray_W_bitmap:
  "raster_to_pbm (gray_3x2 CUPS_CSPACE_W) gray_lines [] = Inr (Some ([128, 160], 3, 2, 2), [])"
  by code_simp

theorem threshold_classification_witness:
  "raster_to_pbm (gray_3x2 CUPS_CSPACE_K) gray_lines [] = Inr (Some ([96, 64], 3, 2, 2), [])
   \<and> cupsBitsPerPixel (gray_3x2 CUPS_CSPACE_K) = 8
   \<and> 0 < length (lines_read (gray_3x2 CUPS_CSPACE_K) gray_lines)
   \<and> 1 < unat (cupsWidth (gray_3x2 CUPS_CSPACE_K))
   \<and> gray_lines ! 0 ! 0 = 127 \<and> \<not> pbm_pixel [96, 64] 1 0 0
   \<and> gray_lines ! 0 ! 1 = 128 \<and> pbm_pixel [96, 64] 1 1 0"
proof -
  have b: "cupsBitsPerPixel (gray_3x2 CUPS_CSPACE_K) = 8" by (simp add: gray_3x2_def)
  have y: "0 < length (lines_read (gray_3x2 CUPS_CSPACE_K) gray_lines)"
    unfolding gray_lines_read by (simp add: gray_lines_def)
  have x0: "0 < unat (cupsWidth (gray_3x2 CUPS_CSPACE_K))" by (simp add: gray_3x2_def)
  have x1: "1 < unat (cupsWidth (gray_3x2 CUPS_CSPACE_K))" by (simp add: gray_3x2_def)
  have s: "unat (pbm_stride (gray_3x2 CUPS_CSPACE_K)) = 1"
    by (simp add: pbm_stride_def gray_3x2_def)
  have k: "cupsColorSpace (gray_3x2 CUPS_CSPACE_K) \<noteq> CUPS_CSPACE_W"
      "cupsColorSpace (gray_3x2 CUPS_CSPACE_K) \<noteq> CUPS_CSPACE_SW"
    by (simp_all add: gray_3x2_def CUPS_CSPACE_K_def CUPS_CSPACE_W_def CUPS_CSPACE_SW_def)
  have v: "gray_lines ! 0 ! 0 = 127" "gray_lines ! 0 ! 1 = 128"
    by (simp_all add: gray_lines_def)
  from threshold_classification [OF gray_K_bitmap b y x0] k v s
  have p0: "\<not> pbm_pixel [96, 64] 1 0 0" by (simp add: gray_lines_read)
  from threshold_classification [OF gray_K_bitmap b y x1] k v s
  have p1: "pbm_pixel [96, 64] 1 1 0" by (simp add: gray_lines_read)
  from gray_K_bitmap b y x1 v p0 p1 show ?thesis by simp
qed

text \<open>The same lines under the W colour space: 127 is a mark, 128 is none.\<close>

lemma threshold_W_example:
  "pbm_pixel [128, 160] 1 0 0 \<and> \<not> pbm_pixel [128, 160] 1 1 0"
  by (simp add: pbm_pixel_def)

subsection \<open>Padding bits\<close>

text \<open>
  C3, as the program has it. The bitmap has \<open>pbm_stride * cupsHeight\<close> bytes. At eight
  bits per pixel the padding bits of every row, the pixel positions from the width up to the
  end of the row, are zero. At one bit per pixel every row read in full is the first
  \<open>pbm_stride\<close> bytes of its line, as they came: the padding bits are those of the line.
\<close>

theorem padding_bits:
  assumes ok: "raster_to_pbm h ras hp = Inr (Some (pbm, w, ht, sz), hp')"
  shows "length pbm = unat (pbm_stride h) * unat (cupsHeight h) \<and>
         (cupsBitsPerPixel h = 8 \<longrightarrow>
            (\<forall>y < unat (cupsHeight h). \<forall>x. unat (cupsWidth h) \<le> x \<and> x < 8 * unat (pbm_stride h)
                \<longrightarrow> \<not> pbm_pixel pbm (unat (pbm_stride h)) x y)) \<and>
         (cupsBitsPerPixel h = 1 \<longrightarrow>
            (\<forall>y < length (lines_read h ras).
                take (unat (pbm_stride h)) (drop (y * unat (pbm_stride h)) pbm)
                  = take (unat (pbm_stride h)) (lines_read h ras ! y)))"
proof -
  let ?S = "unat (pbm_stride h)"
  let ?W = "unat (cupsWidth h)"
  let ?H = "unat (cupsHeight h)"
  from raster_to_pbm_image [OF ok] obtain rows where
    rows: "list_all2 (row_image h) (lines_read h ras) rows"
    and pbm: "pbm = concat rows @ replicate ((?H - length rows) * ?S) 0"
    by blast
  have ll: "length rows = length (lines_read h ras)"
    using rows by (simp add: list_all2_lengthD)
  have rl: "\<forall>r\<in>set rows. length r = ?S" using rows by (rule rows_lengths)
  have cl: "length (concat rows) = length rows * ?S" using rl by (rule concat_rows_length)
  have len: "length pbm = ?S * ?H" using ok by (rule raster_to_pbm_size)
  have nth: "pbm ! (y * ?S + j) = rows ! y ! j" if "y < length rows" "j < ?S" for y j
    unfolding pbm using rl that by (rule concat_rows_nth)
  have pad: "\<not> pbm_pixel pbm ?S x y"
    if bpp: "cupsBitsPerPixel h = 8" and y: "y < ?H" and x: "?W \<le> x" "x < 8 * ?S" for x y
  proof (cases "y < length rows")
    case True
    have j: "x div 8 < ?S" using x(2) by simp
    have yl: "y < length (lines_read h ras)" using True ll by simp
    have "row_image h (lines_read h ras ! y) (rows ! y)"
      using rows yl by (rule list_all2_nthD)
    with bpp j have "bit (rows ! y ! (x div 8)) (7 - x mod 8)
        \<longleftrightarrow> marks h (lines_read h ras ! y) 0 ?W (x div 8) (7 - x mod 8)"
      by (simp add: row_image_def Let_def)
    moreover have "\<not> marks h (lines_read h ras ! y) 0 ?W (x div 8) (7 - x mod 8)"
    proof
      assume "marks h (lines_read h ras ! y) 0 ?W (x div 8) (7 - x mod 8)"
      then obtain x' where "x' < ?W" "x div 8 = x' div 8" "7 - x mod 8 + x' mod 8 = 7"
        by (auto simp add: marks_def)
      with pixel_unique [of x' x] x(1) show False by simp
    qed
    ultimately show ?thesis
      using nth [OF True j] by (simp add: pbm_pixel_def Let_def)
  next
    case False
    then have "length (concat rows) \<le> y * ?S + x div 8"
      using cl by (simp add: trans_le_add1)
    then have "pbm_pixel pbm ?S x y \<longrightarrow> pbm ! (y * ?S + x div 8) = 0"
      unfolding pbm by (auto simp add: pbm_pixel_def Let_def nth_append)
    then show ?thesis by (auto simp add: pbm_pixel_def Let_def)
  qed
  have one: "take ?S (drop (y * ?S) pbm) = take ?S (lines_read h ras ! y)"
    if bpp: "cupsBitsPerPixel h = 1" and y: "y < length (lines_read h ras)" for y
  proof -
    have yr: "y < length rows" using y ll by simp
    have img: "row_image h (lines_read h ras ! y) (rows ! y)"
      using rows y by (rule list_all2_nthD)
    then have lr: "length (rows ! y) = ?S" by (rule row_image_length)
    from img bpp have r: "rows ! y = take ?S (lines_read h ras ! y)"
      by (simp add: row_image_def Let_def)
    have fits: "y * ?S + ?S \<le> length pbm"
      using y lines_read_length [of h ras] len by (intro row_fits [of y ?H]) simp_all
    then have "length (take ?S (drop (y * ?S) pbm)) = ?S" by simp
    moreover have "take ?S (drop (y * ?S) pbm) ! j = rows ! y ! j" if "j < ?S" for j
      using that nth [OF yr that] fits by simp
    ultimately have "take ?S (drop (y * ?S) pbm) = rows ! y"
      using lr by (intro nth_equalityI) simp_all
    with r show ?thesis by simp
  qed
  from len pad one show ?thesis by blast
qed

theorem padding_bits_witness:
  "raster_to_pbm (gray_3x2 CUPS_CSPACE_W) gray_lines [] = Inr (Some ([128, 160], 3, 2, 2), [])
   \<and> length [128, 160 :: byte] = 2
   \<and> \<not> pbm_pixel [128, 160] 1 3 1 \<and> \<not> pbm_pixel [128, 160] 1 7 1"
proof -
  have s: "unat (pbm_stride (gray_3x2 CUPS_CSPACE_W)) = 1"
    "unat (cupsHeight (gray_3x2 CUPS_CSPACE_W)) = 2"
    "unat (cupsWidth (gray_3x2 CUPS_CSPACE_W)) = 3"
    "cupsBitsPerPixel (gray_3x2 CUPS_CSPACE_W) = 8"
    by (simp_all add: pbm_stride_def gray_3x2_def)
  from padding_bits [OF gray_W_bitmap] s
  have "\<forall>y<2. \<forall>x. 3 \<le> x \<and> x < 8 \<longrightarrow> \<not> pbm_pixel [128, 160] 1 x y"
    by simp
  then have "\<not> pbm_pixel [128, 160] 1 3 1 \<and> \<not> pbm_pixel [128, 160] 1 7 1"
    by simp
  with gray_W_bitmap show ?thesis by simp
qed

text \<open>
  C3 as the claim has it, for any bits per pixel, fails at one bit per pixel: a page one pixel
  wide whose line is the byte \<open>0xFF\<close> gets the row \<open>0xFF\<close>, and the padding bit at
  pixel position 1 is set.
\<close>

theorem one_bit_padding_copied:
  "raster_to_pbm page_1x1 [[255]] [] = Inr (Some ([255], 1, 1, 1), [])
   \<and> unat (cupsWidth page_1x1) \<le> 1 \<and> 1 < 8 * unat (pbm_stride page_1x1)
   \<and> pbm_pixel [255] (unat (pbm_stride page_1x1)) 1 0"
  by (simp add: prog_defs page_1x1_def page_8x1_def CUPS_CSPACE_K_def pbm_pixel_def)

subsection \<open>A short read\<close>

lemma alloc_ok:
  assumes "list_all id (take (Suc n) hp)"
  shows "alloc hp = (True, drop 1 hp) \<and> list_all id (take n (drop 1 hp))"
  using assms by (cases hp) simp_all

lemma short_read_bpl:
  assumes "length (lines_read h ras) < unat (cupsHeight h)"
  shows "cupsBytesPerLine h \<noteq> 0" and "cupsHeight h \<noteq> 0"
proof -
  show "cupsBytesPerLine h \<noteq> 0"
  proof
    assume "cupsBytesPerLine h = 0"
    then have "length (lines_read h ras) = unat (cupsHeight h)"
      by (simp add: lines_read_def full_lines_zero)
    with assms show False by simp
  qed
  show "cupsHeight h \<noteq> 0"
    using assms by (auto simp add: unat_eq_0)
qed

text \<open>
  C2, as the program has it. Take a page on which a read of a pixel line fails, so that
  fewer lines are read in full than the page has rows, and let \<^verbatim>\<open>raster_to_pbm\<close> end
  without a fault and the first three allocations succeed. Then \<^verbatim>\<open>raster_to_pbm\<close> returns
  a bitmap, not \<^verbatim>\<open>NULL\<close>, whose rows from the failing one on are zero; \<^verbatim>\<open>pbm_to_jbig\<close>
  compresses it; and the loop body counts the page and writes its frame, behind the job
  header when it is the first page written. The loop then goes on with the state returned.
\<close>

theorem short_read_page_emitted_partial:
  assumes short: "length (lines_read h ras) < unat (cupsHeight h)"
      and nofault: "raster_to_pbm h ras hp = Inr r"
      and mem: "list_all id (take 3 hp)"
  shows "\<exists>pbm sz jbig n hp'.
           r = (Some (pbm, cupsWidth h, cupsHeight h, sz), drop 2 hp) \<and>
           drop (length (lines_read h ras) * unat (pbm_stride h)) pbm
             = replicate ((unat (cupsHeight h) - length (lines_read h ras))
                            * unat (pbm_stride h)) 0 \<and>
           pbm_to_jbig enc pbm (cupsWidth h) (cupsHeight h) (drop 2 hp) = (Some (jbig, n), hp') \<and>
           do_page enc ts u (h, ras) (pc, out, hp) =
             (if pc = 2 ^ 31 - 1 then Inl SignedOverflow
              else Inr (pc + 1,
                        (if pc = 0 then job_header ts u out else out)
                          @ page_frame h (cupsWidth h) (cupsHeight h) jbig n,
                        hp'))"
proof -
  let ?S = "unat (pbm_stride h)"
  let ?H = "unat (cupsHeight h)"
  from alloc_ok [of 2 hp] mem have a1: "alloc hp = (True, drop 1 hp)"
    and m1: "list_all id (take 2 (drop 1 hp))"
    by (simp_all add: numeral_3_eq_3 numeral_2_eq_2)
  from alloc_ok [of 1 "drop 1 hp"] m1 have a2: "alloc (drop 1 hp) = (True, drop 2 hp)"
    and m2: "list_all id (take 1 (drop 2 hp))"
    by (simp_all add: numeral_2_eq_2)
  from alloc_ok [of 0 "drop 2 hp"] m2 have a3: "alloc (drop 2 hp) = (True, drop 3 hp)"
    by (simp add: numeral_3_eq_3 numeral_2_eq_2)
  from nofault a1 a2 obtain pbm sz where
    r: "r = (Some (pbm, cupsWidth h, cupsHeight h, sz), drop 2 hp)"
    by (auto simp add: raster_to_pbm_def Let_def split: sum.splits)
  with nofault have ok: "raster_to_pbm h ras hp
      = Inr (Some (pbm, cupsWidth h, cupsHeight h, sz), drop 2 hp)" by simp
  from raster_to_pbm_image [OF ok] obtain rows where
    rows: "list_all2 (row_image h) (lines_read h ras) rows"
    and pbm: "pbm = concat rows @ replicate ((?H - length rows) * ?S) 0"
    by blast
  have ll: "length rows = length (lines_read h ras)"
    using rows by (simp add: list_all2_lengthD)
  have cl: "length (concat rows) = length rows * ?S"
    using rows_lengths [OF rows] by (rule concat_rows_length)
  have zeros: "drop (length (lines_read h ras) * ?S) pbm
      = replicate ((?H - length (lines_read h ras)) * ?S) 0"
    using pbm cl ll by simp
  obtain buf hp' where
    f: "fold jbig_data_cb (enc pbm (cupsWidth h) (cupsHeight h)) (buf0, drop 3 hp) = (buf, hp')"
    by (cases "fold jbig_data_cb (enc pbm (cupsWidth h) (cupsHeight h)) (buf0, drop 3 hp)")
  with a3 have j: "pbm_to_jbig enc pbm (cupsWidth h) (cupsHeight h) (drop 2 hp)
      = (Some (data buf, size' buf), hp')"
    by (simp add: pbm_to_jbig_def)
  have "do_page enc ts u (h, ras) (pc, out, hp) =
             (if pc = 2 ^ 31 - 1 then Inl SignedOverflow
              else Inr (pc + 1,
                        (if pc = 0 then job_header ts u out else out)
                          @ page_frame h (cupsWidth h) (cupsHeight h) (data buf) (size' buf),
                        hp'))"
    using short_read_bpl [OF short] ok j
    by (simp add: do_page_def Let_def page_frame_append)
  with r zeros j show ?thesis by blast
qed

lemma page_8x2_lines_read: "lines_read page_8x2 [[255]] = [[255]]"
  by code_simp

lemma page_8x2_bitmap:
  "raster_to_pbm page_8x2 [[255]] [] = Inr (Some ([255, 0], 8, 2, 2), [])"
  by code_simp

theorem short_read_page_emitted_partial_witness:
  "length (lines_read page_8x2 [[255]]) < unat (cupsHeight page_8x2)
   \<and> raster_to_pbm page_8x2 [[255]] [] = Inr (Some ([255, 0], 8, 2, 2), [])
   \<and> list_all id (take 3 [])
   \<and> do_page echo_enc ''2024/01/02 03:04:05'' ''alice'' (page_8x2, [[255]]) (0, [], [])
       = Inr (1, job_header ''2024/01/02 03:04:05'' ''alice'' []
                   @ page_frame page_8x2 8 2 [255, 0] 2, [])"
proof -
  have s: "length (lines_read page_8x2 [[255]]) < unat (cupsHeight page_8x2)"
    by (simp add: page_8x2_lines_read) (simp add: page_8x2_def)
  have m: "list_all id (take 3 [])" by simp
  have wh: "cupsWidth page_8x2 = 8" "cupsHeight page_8x2 = 2"
    by (simp_all add: page_8x2_def page_8x1_def)
  have "do_page echo_enc ''2024/01/02 03:04:05'' ''alice'' (page_8x2, [[255]]) (0, [], [])
       = Inr (1, job_header ''2024/01/02 03:04:05'' ''alice'' []
                   @ page_frame page_8x2 8 2 [255, 0] 2, [])"
    using short_read_page_emitted_partial [OF s page_8x2_bitmap m,
      of echo_enc "''2024/01/02 03:04:05''" "''alice''" 0 "[]"]
  proof (elim exE conjE)
    fix pbm :: "byte list" and sz :: size_t and jbig n hp'
    assume e1: "(Some ([255, 0], 8, 2, 2), [])
           = (Some (pbm, cupsWidth page_8x2, cupsHeight page_8x2, sz), drop 2 [])"
      and e2: "pbm_to_jbig echo_enc pbm (cupsWidth page_8x2) (cupsHeight page_8x2) (drop 2 [])
           = (Some (jbig, n), hp')"
      and e3: "do_page echo_enc ''2024/01/02 03:04:05'' ''alice'' (page_8x2, [[255]]) (0, [], [])
           = (if (0 :: int) = 2 ^ 31 - 1 then Inl SignedOverflow
              else Inr (0 + 1,
                        (if (0 :: int) = 0 then job_header ''2024/01/02 03:04:05'' ''alice'' []
                         else [])
                          @ page_frame page_8x2 (cupsWidth page_8x2) (cupsHeight page_8x2) jbig n,
                        hp'))"
    from e1 have pbm: "pbm = [255, 0]" by simp
    from e2 have "jbig = [255, 0] \<and> n = 2 \<and> hp' = []"
      unfolding pbm by (simp add: pbm_to_jbig_def buf0_def jbig_data_cb_def echo_enc_def)
    with e3 show ?thesis by (simp add: wh)
  qed
  with s page_8x2_bitmap m show ?thesis by simp
qed

text \<open>
  C2 as the claim has it fails: a page of two rows whose second line cannot be read is not
  abandoned. Its frame is written, with the bitmap of the first row followed by a zero row
  as the payload, and the run exits with status 0.
\<close>

theorem short_read_not_abandoned:
  "length (lines_read page_8x2 [[255]]) < unat (cupsHeight page_8x2)
   \<and> main (raster_of [(page_8x2, [[255]])]) echo_enc (stdin_run [])
       = Inr (0, job_header ''2024/01/02 03:04:05'' ''alice'' []
                   @ page_frame page_8x2 8 2 [255, 0] 2
                   @ job_footer [])"
proof -
  have "length (lines_read page_8x2 [[255]]) < unat (cupsHeight page_8x2)"
    by (simp add: page_8x2_lines_read) (simp add: page_8x2_def)
  moreover have "main (raster_of [(page_8x2, [[255]])]) echo_enc (stdin_run [])
       = Inr (0, job_footer (page_footer (write_bytes [255, 0] 2 (page_header page_8x2 8 2 2
               (job_header ''2024/01/02 03:04:05'' ''alice'' [])))))"
    by code_simp
  ultimately show ?thesis
    by (simp add: page_frame_append job_footer_append [of "_ @ _"])
qed

subsection \<open>Reads of the line buffer\<close>

lemma row_loop_no_fault:
  assumes step: "\<And>line y pbm. length line = unat (cupsBytesPerLine h) \<Longrightarrow> y < H
                   \<Longrightarrow> length pbm = n
                   \<Longrightarrow> \<exists>p. store_row h line y pbm = Inr p \<and> length p = n"
      and "\<forall>y\<in>set ys. y < H" and "length pbm = n"
  shows "\<exists>p. row_loop h ys ras pbm = Inr p"
  using assms(2,3)
proof (induction ys arbitrary: ras pbm)
  case Nil
  show ?case by simp
next
  case (Cons y ys)
  obtain line ras' where rd: "cupsRasterReadPixels ras (unat (cupsBytesPerLine h)) = (line, ras')"
    by (cases "cupsRasterReadPixels ras (unat (cupsBytesPerLine h))")
  show ?case
  proof (cases "length line = unat (cupsBytesPerLine h)")
    case False
    with rd show ?thesis by simp
  next
    case True
    from step [OF True _ Cons.prems(2), of y] Cons.prems(1) obtain p where
      p: "store_row h line y pbm = Inr p" "length p = n" by auto
    from Cons.IH [OF _ p(2), of ras'] Cons.prems(1) obtain q where
      "row_loop h ys ras' p = Inr q" by auto
    with rd True p(1) show ?thesis by simp
  qed
qed

lemma raster_to_pbm_no_fault:
  assumes step: "\<And>line y pbm. length line = unat (cupsBytesPerLine h)
                   \<Longrightarrow> y < unat (cupsHeight h)
                   \<Longrightarrow> length pbm = unat (pbm_stride h) * unat (cupsHeight h)
                   \<Longrightarrow> \<exists>p. store_row h line y pbm = Inr p
                           \<and> length p = unat (pbm_stride h) * unat (cupsHeight h)"
  shows "\<exists>r. raster_to_pbm h ras hp = Inr r"
proof -
  have "\<exists>p. row_loop h [0..<unat (cupsHeight h)] ras
               (replicate (unat (pbm_stride h) * unat (cupsHeight h)) 0) = Inr p"
    using step by (rule row_loop_no_fault) auto
  then show ?thesis
    by (auto simp add: raster_to_pbm_def Let_def unat_pbm_size split: prod.splits)
qed

text \<open>
  C10. At one bit per pixel every row copies \<open>pbm_stride\<close> bytes out of the line buffer
  of \<open>cupsBytesPerLine\<close> bytes; that is \<open>ceil (cupsWidth / 8)\<close> unless
  \<open>cupsWidth + 7\<close> wraps around, and never more. When
  \<open>cupsBytesPerLine\<close> is at least \<open>ceil (cupsWidth / 8)\<close>, \<^verbatim>\<open>raster_to_pbm\<close> ends
  without a fault: no access leaves the line buffer or the bitmap. The program does not
  check this: when \<open>cupsBytesPerLine\<close> is less than \<open>pbm_stride\<close>, the copy of the first
  line read in full reads past the end of the line buffer. At a depth other than 1 and 8 the
  copy is of the smaller of the two strides, and \<^verbatim>\<open>raster_to_pbm\<close> never faults.
\<close>

theorem one_bit_copy_in_bounds:
  "unat (pbm_stride h) \<le> (unat (cupsWidth h) + 7) div 8
   \<and> (unat (cupsWidth h) + 7 < 2 ^ 32
      \<longrightarrow> unat (pbm_stride h) = (unat (cupsWidth h) + 7) div 8)
   \<and> (cupsBitsPerPixel h = 1 \<and> (unat (cupsWidth h) + 7) div 8 \<le> unat (cupsBytesPerLine h)
      \<longrightarrow> (\<exists>r. raster_to_pbm h ras hp = Inr r))
   \<and> (cupsBitsPerPixel h = 1 \<and> unat (cupsBytesPerLine h) < unat (pbm_stride h)
        \<and> lines_read h ras \<noteq> [] \<and> list_all id (take 2 hp)
      \<longrightarrow> raster_to_pbm h ras hp = Inl OutOfBoundsRead)
   \<and> (cupsBitsPerPixel h \<noteq> 1 \<and> cupsBitsPerPixel h \<noteq> 8
      \<longrightarrow> (\<exists>r. raster_to_pbm h ras hp = Inr r))"
proof (intro conjI impI)
  let ?S = "unat (pbm_stride h)"
  let ?H = "unat (cupsHeight h)"
  let ?B = "unat (cupsBytesPerLine h)"
  show "?S \<le> (unat (cupsWidth h) + 7) div 8" by (rule stride_le_ceil)
  {
    assume "unat (cupsWidth h) + 7 < 2 ^ 32"
    then show "?S = (unat (cupsWidth h) + 7) div 8" by (simp add: unat_pbm_stride)
  }
  {
    assume a: "cupsBitsPerPixel h = 1 \<and> (unat (cupsWidth h) + 7) div 8 \<le> ?B"
    with stride_le_ceil [of h] have sb: "?S \<le> ?B" by simp
    show "\<exists>r. raster_to_pbm h ras hp = Inr r"
    proof (rule raster_to_pbm_no_fault)
      fix line :: "byte list" and y and pbm :: "byte list"
      assume l: "length line = ?B" and y: "y < ?H" and n: "length pbm = ?S * ?H"
      from row_fits [OF y n] sb l a
      show "\<exists>p. store_row h line y pbm = Inr p \<and> length p = ?S * ?H"
        using n by (simp add: store_row_def Let_def memcpy_def)
    qed
  }
  {
    assume a: "cupsBitsPerPixel h \<noteq> 1 \<and> cupsBitsPerPixel h \<noteq> 8"
    show "\<exists>r. raster_to_pbm h ras hp = Inr r"
    proof (rule raster_to_pbm_no_fault)
      fix line :: "byte list" and y and pbm :: "byte list"
      assume l: "length line = ?B" and y: "y < ?H" and n: "length pbm = ?S * ?H"
      let ?n = "unat (if pbm_stride h < cupsBytesPerLine h then pbm_stride h
                    else cupsBytesPerLine h)"
      have m: "?n = min ?S ?B" by (auto simp add: word_less_nat_alt)
      from row_fits [OF y n] m have "y * ?S + ?n \<le> length pbm" by simp
      with m l a n
      show "\<exists>p. store_row h line y pbm = Inr p \<and> length p = ?S * ?H"
        by (simp add: store_row_def Let_def memcpy_def)
    qed
  }
  {
    assume a: "cupsBitsPerPixel h = 1 \<and> ?B < ?S \<and> lines_read h ras \<noteq> []
                \<and> list_all id (take 2 hp)"
    from alloc_ok [of 1 hp] a have a1: "alloc hp = (True, drop 1 hp)"
      and m1: "list_all id (take 1 (drop 1 hp))"
      by (simp_all add: numeral_2_eq_2)
    from alloc_ok [of 0 "drop 1 hp"] m1 have a2: "alloc (drop 1 hp) = (True, drop 2 hp)"
      by (simp add: numeral_2_eq_2)
    from a obtain m where H: "?H = Suc m"
      by (cases ?H) (auto simp add: lines_read_def)
    obtain line ras' where rd: "cupsRasterReadPixels ras ?B = (line, ras')"
      by (cases "cupsRasterReadPixels ras ?B")
    with a H have l: "length line = ?B"
      by (auto simp add: lines_read_def split: if_splits)
    have up: "[0..<Suc m] = 0 # [Suc 0..<Suc m]" by (simp add: upt_conv_Cons)
    from a l have "store_row h line 0 pbm = Inl OutOfBoundsRead" for pbm
      by (simp add: store_row_def Let_def memcpy_def)
    with rd l have "row_loop h [0..<?H] ras pbm = Inl OutOfBoundsRead" for pbm
      unfolding H up by simp
    with a1 a2 show "raster_to_pbm h ras hp = Inl OutOfBoundsRead"
      by (simp add: raster_to_pbm_def Let_def)
  }
qed

theorem one_bit_copy_in_bounds_witness:
  "cupsBitsPerPixel page_8x1 = 1
   \<and> (unat (cupsWidth page_8x1) + 7) div 8 \<le> unat (cupsBytesPerLine page_8x1)
   \<and> raster_to_pbm page_8x1 [[170]] [] = Inr (Some ([170], 8, 1, 1), [])
   \<and> unat (cupsBytesPerLine page_9x1) < unat (pbm_stride page_9x1)
   \<and> lines_read page_9x1 [[255]] \<noteq> []
   \<and> raster_to_pbm page_9x1 [[255]] [] = Inl OutOfBoundsRead
   \<and> cupsBitsPerPixel page_9x1_2bpp \<noteq> 1 \<and> cupsBitsPerPixel page_9x1_2bpp \<noteq> 8
   \<and> raster_to_pbm page_9x1_2bpp [[255]] [] = Inr (Some ([255, 0], 9, 1, 2), [])"
proof -
  have a: "cupsBitsPerPixel page_8x1 = 1
      \<and> (unat (cupsWidth page_8x1) + 7) div 8 \<le> unat (cupsBytesPerLine page_8x1)"
    by (simp add: page_8x1_def)
  have b: "cupsBitsPerPixel page_9x1 = 1
      \<and> unat (cupsBytesPerLine page_9x1) < unat (pbm_stride page_9x1)
      \<and> lines_read page_9x1 [[255]] \<noteq> [] \<and> list_all id (take 2 [])"
    by (simp add: page_9x1_def page_8x1_def pbm_stride_def lines_read_def)
  have c: "cupsBitsPerPixel page_9x1_2bpp \<noteq> 1 \<and> cupsBitsPerPixel page_9x1_2bpp \<noteq> 8"
    by (simp add: page_9x1_2bpp_def page_8x1_def)
  from one_bit_copy_in_bounds [of page_8x1 "[[170]]" "[]"] a
  have "\<exists>r. raster_to_pbm page_8x1 [[170]] [] = Inr r" by blast
  then have r1: "raster_to_pbm page_8x1 [[170]] [] = Inr (Some ([170], 8, 1, 1), [])"
    by (simp add: prog_defs page_8x1_def CUPS_CSPACE_K_def)
  from one_bit_copy_in_bounds [of page_9x1 "[[255]]" "[]"] b
  have r2: "raster_to_pbm page_9x1 [[255]] [] = Inl OutOfBoundsRead" by blast
  from one_bit_copy_in_bounds [of page_9x1_2bpp "[[255]]" "[]"] c
  have "\<exists>r. raster_to_pbm page_9x1_2bpp [[255]] [] = Inr r" by blast
  then have r3: "raster_to_pbm page_9x1_2bpp [[255]] [] = Inr (Some ([255, 0], 9, 1, 2), [])"
    by (simp add: prog_defs page_9x1_2bpp_def page_8x1_def CUPS_CSPACE_K_def)
  from a b c r1 r2 r3 show ?thesis by simp
qed

end
